theory Spec2Isabelle
  imports Main "HOL-Library.Multiset" "HOL-Library.List_Lexorder" "HOL-Library.Char_ord"
begin

section \<open>Data model of LinkedList.c\<close>

text \<open>
  A \<open>ListItem *\<close> is an address; address 0 is the C null pointer. A \<open>char *\<close>
  payload is either the null pointer (\<open>None\<close>) or points to a caller-owned string that
  the list never writes; it is modelled by the characters before the terminating NUL.
\<close>

type_synonym addr = nat

abbreviation NULL :: addr where
  "NULL \<equiv> 0"

text \<open>
  Modelled from the spec: the struct \<open>ListItem\<close> is declared in LinkedList.h, which is
  not among the sources. It is the specification's Node (payload, next, prev), with the
  field names that LinkedList.c reads and writes.
\<close>

record ListItem =
  previousItem :: addr
  nextItem :: addr
  data :: "string option"

text \<open>
  Modelled from the spec: \<open>SUCCESS\<close> and \<open>STANDARD_ERROR\<close> are declared in BOARD.h,
  which is not among the sources. They are the specification's success and failure codes,
  two distinct values.
\<close>

datatype retcode = STANDARD_ERROR | SUCCESS

text \<open>
  Dereferencing the null pointer, or a pointer to a block that is not allocated, is
  undefined behaviour in C; the model stops there with a fault.
\<close>

datatype fault = NullDeref | WildDeref

text \<open>
  The memory: the raw contents of every block (\<open>cells\<close>), the set of allocated blocks
  (\<open>live\<close>), the blocks that \<open>malloc\<close> will hand out next (\<open>avail\<close>; empty when
  storage is exhausted) and the characters written to standard output so far.
\<close>

record heap =
  cells :: "addr \<Rightarrow> ListItem"
  live :: "addr set"
  avail :: "addr list"
  stdout :: string

definition deref :: "heap \<Rightarrow> addr \<Rightarrow> fault + ListItem" where
  "deref h p =
     (if p = NULL then Inl NullDeref
      else if p \<notin> live h then Inl WildDeref
      else Inr (cells h p))"

definition put :: "heap \<Rightarrow> addr \<Rightarrow> (ListItem \<Rightarrow> ListItem) \<Rightarrow> fault + heap" where
  "put h p f =
     (if p = NULL then Inl NullDeref
      else if p \<notin> live h then Inl WildDeref
      else Inr (h\<lparr>cells := (cells h)(p := f (cells h p))\<rparr>))"

text \<open>
  \<open>malloc\<close> returns the null pointer when no block is available; otherwise it hands out
  the next block with whatever contents it had. \<open>free\<close> gives the block back and does
  not clear it either.
\<close>

definition malloc :: "heap \<Rightarrow> addr \<times> heap" where
  "malloc h =
     (case avail h of
        [] \<Rightarrow> (NULL, h)
      | a # as \<Rightarrow> (a, h\<lparr>live := insert a (live h), avail := as\<rparr>))"

definition free :: "heap \<Rightarrow> addr \<Rightarrow> heap" where
  "free h p = (if p = NULL then h else h\<lparr>live := live h - {p}, avail := p # avail h\<rparr>)"

text \<open>\<open>strlen\<close> and the sign of \<open>strcmp\<close> (bytes compared as unsigned char).\<close>

definition strlen :: "string \<Rightarrow> nat" where
  "strlen s = length s"

fun strcmp :: "string \<Rightarrow> string \<Rightarrow> int" where
  "strcmp [] [] = 0"
| "strcmp [] (y # ys) = - 1"
| "strcmp (x # xs) [] = 1"
| "strcmp (x # xs) (y # ys) =
     (if x = y then strcmp xs ys
      else if (of_char x :: nat) < of_char y then - 1 else 1)"

section \<open>The operations\<close>

subsection \<open>LinkedListNew\<close>

text \<open>
  The payload is stored through \<open>temp\<close> before \<open>temp\<close> is compared with the null
  pointer, and neither link of the new block is written.
\<close>

definition LinkedListNew :: "heap \<Rightarrow> string option \<Rightarrow> fault + (addr \<times> heap)" where
  "LinkedListNew h d =
     (case malloc h of (temp, h1) \<Rightarrow>
        (case put h1 temp (\<lambda>it. it\<lparr>data := d\<rparr>) of
           Inl e \<Rightarrow> Inl e
         | Inr h2 \<Rightarrow> if temp = NULL then Inr (NULL, h2) else Inr (temp, h2)))"

subsection \<open>LinkedListRemove\<close>

text \<open>
  \<open>temp->data\<close> is read before the null test. Each statement reads the fields of
  \<open>temp\<close> from the memory as the statements before it left it.
\<close>

definition LinkedListRemove :: "heap \<Rightarrow> addr \<Rightarrow> fault + (string option \<times> heap)" where
  "LinkedListRemove h item =
     (let temp = item in
      case deref h temp of
        Inl e \<Rightarrow> Inl e
      | Inr t \<Rightarrow>
          let d = data t in
          if temp = NULL then Inr (None, h)
          else if nextItem t = NULL \<and> previousItem t = NULL then Inr (d, free h temp)
          else if nextItem t = NULL then
            (case put h (previousItem t) (\<lambda>it. it\<lparr>nextItem := NULL\<rparr>) of
               Inl e \<Rightarrow> Inl e
             | Inr h1 \<Rightarrow> Inr (d, free h1 temp))
          else if previousItem t = NULL then
            (case put h (nextItem t) (\<lambda>it. it\<lparr>previousItem := NULL\<rparr>) of
               Inl e \<Rightarrow> Inl e
             | Inr h1 \<Rightarrow> Inr (d, free h1 temp))
          else
            (case put h (nextItem t) (\<lambda>it. it\<lparr>previousItem := previousItem t\<rparr>) of
               Inl e \<Rightarrow> Inl e
             | Inr h1 \<Rightarrow>
                 (case put h1 (previousItem (cells h1 temp))
                         (\<lambda>it. it\<lparr>nextItem := nextItem (cells h1 temp)\<rparr>) of
                    Inl e \<Rightarrow> Inl e
                  | Inr h2 \<Rightarrow> Inr (d, free h2 temp))))"

subsection \<open>LinkedListGetFirst\<close>

text \<open>
  The \<open>while\<close> loop follows \<open>previousItem\<close> until it is null; on links that form a
  cycle it never returns, which is the value \<open>None\<close>.
\<close>

partial_function (option) LinkedListGetFirst :: "heap \<Rightarrow> addr \<Rightarrow> (fault + addr) option" where
  "LinkedListGetFirst h first =
     (case deref h first of
        Inl e \<Rightarrow> Some (Inl e)
      | Inr it \<Rightarrow>
          if previousItem it \<noteq> NULL then LinkedListGetFirst h (previousItem it)
          else Some (Inr first))"

subsection \<open>LinkedListSize\<close>

partial_function (option) size_loop :: "heap \<Rightarrow> addr \<Rightarrow> int \<Rightarrow> (fault + int) option" where
  "size_loop h temp cnt =
     (if temp \<noteq> NULL then
        (case deref h temp of
           Inl e \<Rightarrow> Some (Inl e)
         | Inr it \<Rightarrow> size_loop h (nextItem it) (cnt + 1))
      else Some (Inr cnt))"

definition LinkedListSize :: "heap \<Rightarrow> addr \<Rightarrow> (fault + int) option" where
  "LinkedListSize h list =
     (case LinkedListGetFirst h list of
        None \<Rightarrow> None
      | Some (Inl e) \<Rightarrow> Some (Inl e)
      | Some (Inr temp) \<Rightarrow> size_loop h temp 0)"

subsection \<open>LinkedListCreateAfter\<close>

definition LinkedListCreateAfter ::
    "heap \<Rightarrow> addr \<Rightarrow> string option \<Rightarrow> fault + (addr \<times> heap)" where
  "LinkedListCreateAfter h item d =
     (case LinkedListNew h d of
        Inl e \<Rightarrow> Inl e
      | Inr (new, h1) \<Rightarrow>
          if new = NULL then Inr (NULL, h1)
          else
            (case deref h1 item of
               Inl e \<Rightarrow> Inl e
             | Inr it \<Rightarrow>
                 if nextItem it = NULL then
                   (case put h1 new (\<lambda>n. n\<lparr>nextItem := NULL\<rparr>) of
                      Inl e \<Rightarrow> Inl e
                    | Inr h2 \<Rightarrow>
                        (case put h2 new (\<lambda>n. n\<lparr>previousItem := item\<rparr>) of
                           Inl e \<Rightarrow> Inl e
                         | Inr h3 \<Rightarrow>
                             (case put h3 item (\<lambda>i. i\<lparr>nextItem := new\<rparr>) of
                                Inl e \<Rightarrow> Inl e
                              | Inr h4 \<Rightarrow> Inr (new, h4))))
                 else
                   (case put h1 new (\<lambda>n. n\<lparr>previousItem := item\<rparr>) of
                      Inl e \<Rightarrow> Inl e
                    | Inr h2 \<Rightarrow>
                        (case put h2 new (\<lambda>n. n\<lparr>nextItem := nextItem (cells h2 item)\<rparr>) of
                           Inl e \<Rightarrow> Inl e
                         | Inr h3 \<Rightarrow>
                             (case put h3 (nextItem (cells h3 item))
                                     (\<lambda>c. c\<lparr>previousItem := new\<rparr>) of
                                Inl e \<Rightarrow> Inl e
                              | Inr h4 \<Rightarrow>
                                  (case put h4 item (\<lambda>i. i\<lparr>nextItem := new\<rparr>) of
                                     Inl e \<Rightarrow> Inl e
                                   | Inr h5 \<Rightarrow> Inr (new, h5)))))))"

subsection \<open>LinkedListSwapData\<close>

text \<open>The guard is a disjunction: one null argument passes it and is then dereferenced.\<close>

definition LinkedListSwapData :: "heap \<Rightarrow> addr \<Rightarrow> addr \<Rightarrow> fault + (retcode \<times> heap)" where
  "LinkedListSwapData h firstItem secondItem =
     (if firstItem \<noteq> NULL \<or> secondItem \<noteq> NULL then
        (case deref h firstItem of
           Inl e \<Rightarrow> Inl e
         | Inr f \<Rightarrow>
             let temp = data f in
             (case deref h secondItem of
                Inl e \<Rightarrow> Inl e
              | Inr s \<Rightarrow>
                  (case put h firstItem (\<lambda>it. it\<lparr>data := data s\<rparr>) of
                     Inl e \<Rightarrow> Inl e
                   | Inr h1 \<Rightarrow>
                       (case put h1 secondItem (\<lambda>it. it\<lparr>data := temp\<rparr>) of
                          Inl e \<Rightarrow> Inl e
                        | Inr h2 \<Rightarrow> Inr (SUCCESS, h2)))))
      else Inr (STANDARD_ERROR, h))"

subsection \<open>LinkedListSort\<close>

text \<open>
  One pass of the body of the inner \<open>for\<close> loop: the flag says whether the body left the
  loop by \<open>break\<close>. The value returned by \<open>LinkedListSwapData\<close> is dropped, as in the
  source.
\<close>

definition sort_body :: "heap \<Rightarrow> addr \<Rightarrow> addr \<Rightarrow> fault + (bool \<times> heap)" where
  "sort_body h select cmp =
     (case deref h select of
        Inl e \<Rightarrow> Inl e
      | Inr s \<Rightarrow>
          (case data s of
             None \<Rightarrow> Inr (True, h)
           | Some sd \<Rightarrow>
               (case deref h cmp of
                  Inl e \<Rightarrow> Inl e
                | Inr c \<Rightarrow>
                    (case data c of
                       None \<Rightarrow> map_sum id (\<lambda>r. (False, snd r)) (LinkedListSwapData h select cmp)
                     | Some cd \<Rightarrow>
                         if strlen sd > strlen cd then
                           map_sum id (\<lambda>r. (False, snd r)) (LinkedListSwapData h select cmp)
                         else if strlen sd = strlen cd then
                           (if strcmp cd sd < 0 then
                              map_sum id (\<lambda>r. (False, snd r)) (LinkedListSwapData h select cmp)
                            else Inr (False, h))
                         else Inr (False, h)))))"

partial_function (option) sort_inner :: "heap \<Rightarrow> addr \<Rightarrow> addr \<Rightarrow> (fault + heap) option" where
  "sort_inner h select cmp =
     (if cmp \<noteq> NULL then
        (case sort_body h select cmp of
           Inl e \<Rightarrow> Some (Inl e)
         | Inr (brk, h1) \<Rightarrow>
             if brk then Some (Inr h1)
             else
               (case deref h1 cmp of
                  Inl e \<Rightarrow> Some (Inl e)
                | Inr c \<Rightarrow> sort_inner h1 select (nextItem c)))
      else Some (Inr h))"

partial_function (option) sort_outer :: "heap \<Rightarrow> addr \<Rightarrow> (fault + heap) option" where
  "sort_outer h select =
     (case deref h select of
        Inl e \<Rightarrow> Some (Inl e)
      | Inr s \<Rightarrow>
          if nextItem s \<noteq> NULL then
            (case sort_inner h select (nextItem s) of
               None \<Rightarrow> None
             | Some (Inl e) \<Rightarrow> Some (Inl e)
             | Some (Inr h1) \<Rightarrow>
                 (case deref h1 select of
                    Inl e \<Rightarrow> Some (Inl e)
                  | Inr s1 \<Rightarrow> sort_outer h1 (nextItem s1)))
          else Some (Inr h))"

definition LinkedListSort :: "heap \<Rightarrow> addr \<Rightarrow> (fault + (retcode \<times> heap)) option" where
  "LinkedListSort h list =
     (if list = NULL then Some (Inr (STANDARD_ERROR, h))
      else
        (case sort_outer h list of
           None \<Rightarrow> None
         | Some (Inl e) \<Rightarrow> Some (Inl e)
         | Some (Inr h1) \<Rightarrow> Some (Inr (SUCCESS, h1))))"

subsection \<open>LinkedListPrint\<close>

definition printf :: "heap \<Rightarrow> string \<Rightarrow> heap" where
  "printf h s = h\<lparr>stdout := stdout h @ s\<rparr>"

partial_function (option) print_loop :: "heap \<Rightarrow> addr \<Rightarrow> (fault + heap) option" where
  "print_loop h list =
     (if list \<noteq> NULL then
        (case deref h list of
           Inl e \<Rightarrow> Some (Inl e)
         | Inr it \<Rightarrow>
             (case data it of
                None \<Rightarrow> print_loop (printf h ''-(null)-'') (nextItem it)
              | Some s \<Rightarrow> print_loop (printf h (''-'' @ s @ ''-'')) (nextItem it)))
      else Some (Inr h))"

definition LinkedListPrint :: "heap \<Rightarrow> addr \<Rightarrow> (fault + (retcode \<times> heap)) option" where
  "LinkedListPrint h list =
     (if list = NULL then Some (Inr (STANDARD_ERROR, h))
      else
        (case LinkedListGetFirst h list of
           None \<Rightarrow> None
         | Some (Inl e) \<Rightarrow> Some (Inl e)
         | Some (Inr first) \<Rightarrow>
             (case print_loop (printf h ''{'') first of
                None \<Rightarrow> None
              | Some (Inl e) \<Rightarrow> Some (Inl e)
              | Some (Inr h1) \<Rightarrow> Some (Inr (SUCCESS, printf h1 (''}'' @ [CHR 0x0A]))))))"

text \<open>The unfolding equations of the loops, for evaluation.\<close>

declare LinkedListGetFirst.simps [code]
declare size_loop.simps [code]
declare sort_inner.simps [code]
declare sort_outer.simps [code]
declare print_loop.simps [code]

section \<open>Chains and the payload sequence\<close>

text \<open>
  \<open>fwd h p xs\<close>: following \<open>nextItem\<close> from \<open>p\<close> visits exactly the allocated nodes
  \<open>xs\<close> and then reaches the null pointer; \<open>bwd\<close> is the same along \<open>previousItem\<close>.
  A chain is a non-empty sequence of distinct nodes, listed head to tail, that is linked
  consistently in both directions.
\<close>

fun fwd :: "heap \<Rightarrow> addr \<Rightarrow> addr list \<Rightarrow> bool" where
  "fwd h p [] = (p = NULL)"
| "fwd h p (a # as) = (p = a \<and> a \<noteq> NULL \<and> a \<in> live h \<and> fwd h (nextItem (cells h a)) as)"

fun bwd :: "heap \<Rightarrow> addr \<Rightarrow> addr list \<Rightarrow> bool" where
  "bwd h p [] = (p = NULL)"
| "bwd h p (a # as) = (p = a \<and> a \<noteq> NULL \<and> a \<in> live h \<and> bwd h (previousItem (cells h a)) as)"

definition chain :: "heap \<Rightarrow> addr list \<Rightarrow> bool" where
  "chain h xs = (xs \<noteq> [] \<and> distinct xs \<and> fwd h (hd xs) xs \<and> bwd h (last xs) (rev xs))"

definition payloads :: "heap \<Rightarrow> addr list \<Rightarrow> string option list" where
  "payloads h xs = map (\<lambda>a. data (cells h a)) xs"

text \<open>
  Two memories have the same shape when the same blocks are allocated and available, the
  output is the same and every block has the same two links; payloads may differ.
\<close>

definition same_shape :: "heap \<Rightarrow> heap \<Rightarrow> bool" where
  "same_shape h h' =
     (live h' = live h \<and> avail h' = avail h \<and> stdout h' = stdout h \<and>
      (\<forall>a. nextItem (cells h' a) = nextItem (cells h a) \<and>
           previousItem (cells h' a) = previousItem (cells h a)))"

text \<open>What a caller observes of a sort: the return code and the payloads of the nodes \<open>xs\<close>.\<close>

definition sort_view ::
    "heap \<Rightarrow> addr \<Rightarrow> addr list \<Rightarrow> (fault + (retcode \<times> string option list)) option" where
  "sort_view h list xs =
     map_option (map_sum id (\<lambda>r. (fst r, payloads (snd r) xs))) (LinkedListSort h list)"

text \<open>What a caller observes of a print: the return code and the text on standard output.\<close>

definition print_view :: "heap \<Rightarrow> addr \<Rightarrow> (fault + (retcode \<times> string)) option" where
  "print_view h list =
     map_option (map_sum id (\<lambda>r. (fst r, stdout (snd r)))) (LinkedListPrint h list)"

section \<open>The order of the sort\<close>

text \<open>
  The order as the specification words it: ascending by length, an absent payload
  counting as a string of length 0, then lexicographically among equal lengths.
\<close>

definition plen :: "string option \<Rightarrow> nat" where
  "plen p = (case p of None \<Rightarrow> 0 | Some s \<Rightarrow> length s)"

definition ptext :: "string option \<Rightarrow> string" where
  "ptext p = (case p of None \<Rightarrow> [] | Some s \<Rightarrow> s)"

definition spec_le :: "string option \<Rightarrow> string option \<Rightarrow> bool" where
  "spec_le a b = (plen a < plen b \<or> (plen a = plen b \<and> ptext a \<le> ptext b))"

text \<open>
  The order the comparisons of \<open>LinkedListSort\<close> decide: a null payload comes before
  every string, the empty string included; strings go by length, then lexicographically.
\<close>

definition sort_le :: "string option \<Rightarrow> string option \<Rightarrow> bool" where
  "sort_le a b =
     (case a of
        None \<Rightarrow> True
      | Some s \<Rightarrow>
          (case b of
             None \<Rightarrow> False
           | Some c \<Rightarrow> length s < length c \<or> (length s = length c \<and> s \<le> c)))"

text \<open>
  The two loops seen on the payload sequence alone. \<open>must_swap s c\<close> is the test of the
  loop body for the payloads of \<open>select\<close> and \<open>cmp\<close>; \<open>pass\<close> is one run of the inner
  loop, returning the payload left in \<open>select\<close> and those left in the later nodes;
  \<open>selsort\<close> is the outer loop.
\<close>

definition must_swap :: "string option \<Rightarrow> string option \<Rightarrow> bool" where
  "must_swap s c =
     (case s of
        None \<Rightarrow> False
      | Some sd \<Rightarrow>
          (case c of
             None \<Rightarrow> True
           | Some cd \<Rightarrow> strlen sd > strlen cd \<or> (strlen sd = strlen cd \<and> strcmp cd sd < 0)))"

fun pass :: "string option \<Rightarrow> string option list \<Rightarrow> string option \<times> string option list" where
  "pass s [] = (s, [])"
| "pass s (c # cs) =
     (if s = None then (s, c # cs)
      else if must_swap s c then (fst (pass c cs), s # snd (pass c cs))
      else (fst (pass s cs), c # snd (pass s cs)))"

fun selsort_aux :: "nat \<Rightarrow> string option list \<Rightarrow> string option list" where
  "selsort_aux 0 xs = xs"
| "selsort_aux (Suc n) [] = []"
| "selsort_aux (Suc n) (x # ys) = fst (pass x ys) # selsort_aux n (snd (pass x ys))"

definition selsort :: "string option list \<Rightarrow> string option list" where
  "selsort xs = selsort_aux (length xs) xs"

section \<open>The text of a printed chain\<close>

definition item_text :: "string option \<Rightarrow> string" where
  "item_text p = (case p of None \<Rightarrow> ''-(null)-'' | Some s \<Rightarrow> ''-'' @ s @ ''-'')"

definition chain_text :: "string option list \<Rightarrow> string" where
  "chain_text ps = ''{'' @ concat (map item_text ps) @ ''}'' @ [CHR 0x0A]"

text \<open>
  The line as the specification's pattern writes it, for payloads that are all present:
  an opening brace, a dash before each value, and a dash and the closing brace at the end.
\<close>

definition spec_text :: "string list \<Rightarrow> string" where
  "spec_text vs = ''{'' @ concat (map (\<lambda>v. ''-'' @ v) vs) @ ''-}'' @ [CHR 0x0A]"

section \<open>Example memories\<close>

definition blank :: ListItem where
  "blank = \<lparr>previousItem = NULL, nextItem = NULL, data = None\<rparr>"

text \<open>The chain dog, cat, duck, goat, null of the header comment, at the addresses 1 to 5.\<close>

definition zoo :: heap where
  "zoo = \<lparr>cells = (\<lambda>_. blank)
            (1 := \<lparr>previousItem = NULL, nextItem = 2, data = Some ''dog''\<rparr>,
             2 := \<lparr>previousItem = 1, nextItem = 3, data = Some ''cat''\<rparr>,
             3 := \<lparr>previousItem = 2, nextItem = 4, data = Some ''duck''\<rparr>,
             4 := \<lparr>previousItem = 3, nextItem = 5, data = Some ''goat''\<rparr>,
             5 := \<lparr>previousItem = 4, nextItem = NULL, data = None\<rparr>),
          live = {1, 2, 3, 4, 5}, avail = [6, 7], stdout = []\<rparr>"

text \<open>The same chain with its payloads in sorted order.\<close>

definition zoo_sorted :: heap where
  "zoo_sorted = \<lparr>cells = (\<lambda>_. blank)
            (1 := \<lparr>previousItem = NULL, nextItem = 2, data = None\<rparr>,
             2 := \<lparr>previousItem = 1, nextItem = 3, data = Some ''cat''\<rparr>,
             3 := \<lparr>previousItem = 2, nextItem = 4, data = Some ''dog''\<rparr>,
             4 := \<lparr>previousItem = 3, nextItem = 5, data = Some ''duck''\<rparr>,
             5 := \<lparr>previousItem = 4, nextItem = NULL, data = Some ''goat''\<rparr>),
          live = {1, 2, 3, 4, 5}, avail = [6, 7], stdout = []\<rparr>"

text \<open>A chain of two nodes holding the payloads \<open>p\<close> and \<open>q\<close>.\<close>

definition pair_heap :: "string option \<Rightarrow> string option \<Rightarrow> heap" where
  "pair_heap p q = \<lparr>cells = (\<lambda>_. blank)
            (1 := \<lparr>previousItem = NULL, nextItem = 2, data = p\<rparr>,
             2 := \<lparr>previousItem = 1, nextItem = NULL, data = q\<rparr>),
          live = {1, 2}, avail = [3, 4], stdout = []\<rparr>"

text \<open>A chain of three nodes holding b, a, c.\<close>

definition bac :: heap where
  "bac = \<lparr>cells = (\<lambda>_. blank)
            (1 := \<lparr>previousItem = NULL, nextItem = 2, data = Some ''b''\<rparr>,
             2 := \<lparr>previousItem = 1, nextItem = 3, data = Some ''a''\<rparr>,
             3 := \<lparr>previousItem = 2, nextItem = NULL, data = Some ''c''\<rparr>),
          live = {1, 2, 3}, avail = [4, 5], stdout = []\<rparr>"

text \<open>No storage left: \<open>malloc\<close> returns the null pointer.\<close>

definition exhausted :: heap where
  "exhausted = \<lparr>cells = (\<lambda>_. blank), live = {}, avail = [], stdout = []\<rparr>"

text \<open>
  One node at address 1; the block at address 2 was a node after it, has been removed and
  freed, and is the next block \<open>malloc\<close> hands out.
\<close>

definition recycled :: heap where
  "recycled = \<lparr>cells = (\<lambda>_. blank)
            (1 := \<lparr>previousItem = NULL, nextItem = NULL, data = Some ''a''\<rparr>,
             2 := \<lparr>previousItem = 1, nextItem = NULL, data = Some ''b''\<rparr>),
          live = {1}, avail = [2, 3], stdout = []\<rparr>"

section \<open>Memory accesses\<close>

lemma deref_live: "p \<noteq> NULL \<Longrightarrow> p \<in> live h \<Longrightarrow> deref h p = Inr (cells h p)"
  by (simp add: deref_def)

lemma deref_null: "deref h NULL = Inl NullDeref"
  by (simp add: deref_def)

lemma put_live:
  "p \<noteq> NULL \<Longrightarrow> p \<in> live h \<Longrightarrow> put h p f = Inr (h\<lparr>cells := (cells h)(p := f (cells h p))\<rparr>)"
  by (simp add: put_def)

lemma put_null: "put h NULL f = Inl NullDeref"
  by (simp add: put_def)

section \<open>The order and the loops on payload sequences\<close>

lemma strcmp_neg_iff: "strcmp a b < 0 \<longleftrightarrow> a < b"
  by (induction a b rule: strcmp.induct) (auto simp: less_char_def)

lemma must_swap_iff: "must_swap s c \<longleftrightarrow> \<not> sort_le s c"
  by (auto simp: must_swap_def sort_le_def strlen_def strcmp_neg_iff split: option.splits)

lemma sort_le_total: "sort_le a b \<or> sort_le b a"
  by (auto simp: sort_le_def split: option.splits)

lemma sort_le_trans: "sort_le a b \<Longrightarrow> sort_le b c \<Longrightarrow> sort_le a c"
  by (auto simp: sort_le_def split: option.splits)

lemma sort_le_spec_le: "sort_le a b \<Longrightarrow> spec_le a b"
  by (auto simp: sort_le_def spec_le_def plen_def ptext_def split: option.splits)

lemma pass_length: "length (snd (pass s cs)) = length cs"
  by (induction s cs rule: pass.induct) auto

lemma pass_mset: "add_mset (fst (pass s cs)) (mset (snd (pass s cs))) = add_mset s (mset cs)"
  by (induction s cs rule: pass.induct) auto

lemma pass_least:
  "sort_le (fst (pass s cs)) s \<and> (\<forall>c \<in> set (snd (pass s cs)). sort_le (fst (pass s cs)) c)"
proof (induction s cs rule: pass.induct)
  case (1 s)
  then show ?case by (simp add: sort_le_def split: option.splits)
next
  case (2 s c cs)
  show ?case
  proof (cases "s = None")
    case True
    then show ?thesis by (simp add: sort_le_def)
  next
    case False
    show ?thesis
    proof (cases "must_swap s c")
      case True
      then have "sort_le c s" using sort_le_total must_swap_iff by blast
      with 2 False True show ?thesis
        by (auto intro: sort_le_trans)
    next
      case nosw: False
      then have "sort_le s c" using must_swap_iff by blast
      with 2 False nosw show ?thesis
        by (auto intro: sort_le_trans)
    qed
  qed
qed

lemma pass_sorted_id: "\<forall>c \<in> set cs. sort_le s c \<Longrightarrow> pass s cs = (s, cs)"
  by (induction cs) (auto simp: must_swap_iff)

lemma selsort_aux_mset: "mset (selsort_aux n xs) = mset xs"
proof (induction n xs rule: selsort_aux.induct)
  case (3 n x ys)
  then show ?case using pass_mset[of x ys] by simp
qed simp_all

lemma selsort_aux_sorted: "length xs \<le> n \<Longrightarrow> sorted_wrt sort_le (selsort_aux n xs)"
proof (induction n xs rule: selsort_aux.induct)
  case (3 n x ys)
  have "set (selsort_aux n (snd (pass x ys))) = set (snd (pass x ys))"
    using selsort_aux_mset[of n "snd (pass x ys)"] by (metis set_mset_mset)
  with 3 pass_least[of x ys] show ?case by (simp add: pass_length)
qed simp_all

lemma selsort_aux_sorted_id: "sorted_wrt sort_le xs \<Longrightarrow> selsort_aux n xs = xs"
proof (induction n xs rule: selsort_aux.induct)
  case (3 n x ys)
  then show ?case by (simp add: pass_sorted_id)
qed simp_all

section \<open>The sort on the memory\<close>

lemma same_shape_refl: "same_shape h h"
  by (simp add: same_shape_def)

lemma same_shape_trans: "same_shape h h1 \<Longrightarrow> same_shape h1 h2 \<Longrightarrow> same_shape h h2"
  by (simp add: same_shape_def)

lemma fwd_same_shape: "same_shape h h' \<Longrightarrow> fwd h' p xs = fwd h p xs"
  by (induction xs arbitrary: p) (auto simp: same_shape_def)

lemma bwd_same_shape: "same_shape h h' \<Longrightarrow> bwd h' p xs = bwd h p xs"
  by (induction xs arbitrary: p) (auto simp: same_shape_def)

lemma fwd_live: "fwd h p xs \<Longrightarrow> a \<in> set xs \<Longrightarrow> a \<noteq> NULL \<and> a \<in> live h"
  by (induction xs arbitrary: p) auto

lemma bwd_live: "bwd h p xs \<Longrightarrow> a \<in> set xs \<Longrightarrow> a \<noteq> NULL \<and> a \<in> live h"
  by (induction xs arbitrary: p) auto

lemma swap_ok:
  assumes "a \<noteq> NULL" "a \<in> live h" "b \<noteq> NULL" "b \<in> live h"
  shows "\<exists>h'. LinkedListSwapData h a b = Inr (SUCCESS, h') \<and> same_shape h h' \<and>
           (\<forall>x. x \<noteq> a \<and> x \<noteq> b \<longrightarrow> cells h' x = cells h x) \<and>
           data (cells h' a) = data (cells h b) \<and> data (cells h' b) = data (cells h a)"
  using assms
  by (simp add: LinkedListSwapData_def deref_def put_def same_shape_def)

lemma sort_body_ok:
  assumes "s \<noteq> NULL" "s \<in> live h" "c \<noteq> NULL" "c \<in> live h" "s \<noteq> c"
  shows "\<exists>h1. sort_body h s c = Inr (data (cells h s) = None, h1) \<and> same_shape h h1 \<and>
           (\<forall>x. x \<noteq> s \<and> x \<noteq> c \<longrightarrow> cells h1 x = cells h x) \<and>
           (data (cells h s) = None \<longrightarrow> h1 = h) \<and>
           data (cells h1 s) =
             (if must_swap (data (cells h s)) (data (cells h c)) then data (cells h c)
              else data (cells h s)) \<and>
           data (cells h1 c) =
             (if must_swap (data (cells h s)) (data (cells h c)) then data (cells h s)
              else data (cells h c))"
proof -
  from swap_ok[OF assms(1-4)] obtain h' where
    sw: "LinkedListSwapData h s c = Inr (SUCCESS, h')" "same_shape h h'"
        "\<forall>x. x \<noteq> s \<and> x \<noteq> c \<longrightarrow> cells h' x = cells h x"
        "data (cells h' s) = data (cells h c)" "data (cells h' c) = data (cells h s)"
    by blast
  show ?thesis
    using assms sw
    by (auto simp: sort_body_def deref_live must_swap_def same_shape_refl split: option.splits)
qed

lemma payloads_cong: "\<forall>a \<in> set xs. cells h' a = cells h a \<Longrightarrow> payloads h' xs = payloads h xs"
  by (simp add: payloads_def)

lemma payloads_Nil: "payloads h [] = []"
  by (simp add: payloads_def)

lemma payloads_Cons: "payloads h (a # xs) = data (cells h a) # payloads h xs"
  by (simp add: payloads_def)

lemma sort_inner_ok:
  assumes "fwd h c cs" "s \<notin> set cs" "distinct cs" "s \<noteq> NULL" "s \<in> live h"
  shows "\<exists>h'. sort_inner h s c = Some (Inr h') \<and> same_shape h h' \<and>
           (\<forall>x. x \<noteq> s \<and> x \<notin> set cs \<longrightarrow> cells h' x = cells h x) \<and>
           data (cells h' s) = fst (pass (data (cells h s)) (payloads h cs)) \<and>
           payloads h' cs = snd (pass (data (cells h s)) (payloads h cs))"
  using assms
proof (induction cs arbitrary: h c)
  case Nil
  then have "sort_inner h s c = Some (Inr h)"
    by (subst sort_inner.simps) simp
  then show ?case by (simp add: same_shape_refl payloads_Nil)
next
  case (Cons a cs)
  from Cons.prems have c: "c = a" "a \<noteq> NULL" "a \<in> live h"
    and nxt: "fwd h (nextItem (cells h a)) cs"
    and sa: "s \<noteq> a" "s \<notin> set cs" and d: "a \<notin> set cs" "distinct cs"
    by auto
  from sort_body_ok[OF Cons.prems(4) Cons.prems(5) c(2) c(3) sa(1)] obtain h1 where
    b: "sort_body h s a = Inr (data (cells h s) = None, h1)" "same_shape h h1"
       "\<forall>x. x \<noteq> s \<and> x \<noteq> a \<longrightarrow> cells h1 x = cells h x"
       "data (cells h s) = None \<longrightarrow> h1 = h"
       "data (cells h1 s) =
          (if must_swap (data (cells h s)) (data (cells h a)) then data (cells h a)
           else data (cells h s))"
       "data (cells h1 a) =
          (if must_swap (data (cells h s)) (data (cells h a)) then data (cells h s)
           else data (cells h a))"
    by (elim exE conjE) (rule that)
  show ?case
  proof (cases "data (cells h s) = None")
    case True
    with b c have "sort_inner h s c = Some (Inr h)"
      by (subst sort_inner.simps) simp
    with True show ?thesis by (simp add: same_shape_refl payloads_Cons)
  next
    case False
    from b(2) have lv: "live h1 = live h" and nx: "nextItem (cells h1 a) = nextItem (cells h a)"
      by (simp_all add: same_shape_def)
    from nxt b(2) nx have f1: "fwd h1 (nextItem (cells h1 a)) cs"
      by (simp add: fwd_same_shape)
    from Cons.prems lv have s1: "s \<in> live h1" by simp
    from Cons.IH[OF f1 sa(2) d(2) Cons.prems(4) s1] obtain h' where
      i: "sort_inner h1 s (nextItem (cells h1 a)) = Some (Inr h')" "same_shape h1 h'"
         "\<forall>x. x \<noteq> s \<and> x \<notin> set cs \<longrightarrow> cells h' x = cells h1 x"
         "data (cells h' s) = fst (pass (data (cells h1 s)) (payloads h1 cs))"
         "payloads h' cs = snd (pass (data (cells h1 s)) (payloads h1 cs))"
      by (elim exE conjE) (rule that)
    have run: "sort_inner h s c = Some (Inr h')"
      using b(1) False c lv i(1) by (subst sort_inner.simps) (simp add: deref_live)
    have p1: "payloads h1 cs = payloads h cs"
      using b(3) sa d by (intro payloads_cong) auto
    have a': "cells h' a = cells h1 a"
      using i(3) sa d by simp
    have frame: "\<forall>x. x \<noteq> s \<and> x \<notin> set (a # cs) \<longrightarrow> cells h' x = cells h x"
      using i(3) b(3) by simp
    have sel: "data (cells h' s) = fst (pass (data (cells h s)) (payloads h (a # cs)))"
      using i(4) b(5) False by (auto simp: payloads_Cons p1)
    have rest: "payloads h' (a # cs) = snd (pass (data (cells h s)) (payloads h (a # cs)))"
    proof -
      have "payloads h' (a # cs) = data (cells h1 a) # payloads h' cs"
        using a' by (simp add: payloads_Cons)
      then show ?thesis
        using i(5) b(5) b(6) False by (auto simp: payloads_Cons p1)
    qed
    from run same_shape_trans[OF b(2) i(2)] frame sel rest show ?thesis by blast
  qed
qed

lemma sort_outer_ok:
  assumes "fwd h p xs" "xs \<noteq> []" "distinct xs"
  shows "\<exists>h'. sort_outer h p = Some (Inr h') \<and> same_shape h h' \<and>
           (\<forall>x. x \<notin> set xs \<longrightarrow> cells h' x = cells h x) \<and>
           payloads h' xs = selsort (payloads h xs)"
  using assms
proof (induction xs arbitrary: h p)
  case Nil
  then show ?case by simp
next
  case (Cons a xs)
  from Cons.prems have p: "p = a" "a \<noteq> NULL" "a \<in> live h"
    and nxt: "fwd h (nextItem (cells h a)) xs" and d: "a \<notin> set xs" "distinct xs"
    by auto
  show ?case
  proof (cases xs)
    case Nil
    with nxt have "nextItem (cells h a) = NULL" by simp
    with p have "sort_outer h p = Some (Inr h)"
      by (subst sort_outer.simps) (simp add: deref_live)
    with Nil show ?thesis
      by (simp add: same_shape_refl payloads_Cons payloads_Nil selsort_def)
  next
    case (Cons b ys)
    with nxt have q: "nextItem (cells h a) = b" "b \<noteq> NULL" by auto
    from sort_inner_ok[OF nxt d(1) d(2) p(2) p(3)] obtain h1 where
      i: "sort_inner h a (nextItem (cells h a)) = Some (Inr h1)" "same_shape h h1"
         "\<forall>x. x \<noteq> a \<and> x \<notin> set xs \<longrightarrow> cells h1 x = cells h x"
         "data (cells h1 a) = fst (pass (data (cells h a)) (payloads h xs))"
         "payloads h1 xs = snd (pass (data (cells h a)) (payloads h xs))"
      by (elim exE conjE) (rule that)
    from i(2) have lv: "live h1 = live h" and nx: "nextItem (cells h1 a) = nextItem (cells h a)"
      by (simp_all add: same_shape_def)
    from nxt i(2) nx have f1: "fwd h1 (nextItem (cells h1 a)) xs"
      by (simp add: fwd_same_shape)
    from Cons have ne: "xs \<noteq> []" by simp
    from Cons.IH[OF f1 ne d(2)] obtain h' where
      o: "sort_outer h1 (nextItem (cells h1 a)) = Some (Inr h')" "same_shape h1 h'"
         "\<forall>x. x \<notin> set xs \<longrightarrow> cells h' x = cells h1 x"
         "payloads h' xs = selsort (payloads h1 xs)"
      by (elim exE conjE) (rule that)
    have run: "sort_outer h p = Some (Inr h')"
      using p q i(1) lv o(1) by (subst sort_outer.simps) (simp add: deref_live)
    have frame: "\<forall>x. x \<notin> set (a # xs) \<longrightarrow> cells h' x = cells h x"
      using o(3) i(3) by simp
    have "cells h' a = cells h1 a" using o(3) d by simp
    then have "payloads h' (a # xs) = data (cells h1 a) # payloads h' xs"
      by (simp add: payloads_Cons)
    also have "\<dots> = selsort (payloads h (a # xs))"
      using i(4) i(5) o(4) by (simp add: selsort_def payloads_Cons pass_length)
    finally have res: "payloads h' (a # xs) = selsort (payloads h (a # xs))" .
    from run same_shape_trans[OF i(2) o(2)] frame res show ?thesis by blast
  qed
qed


section \<open>Nodes of a chain\<close>

lemma payloads_append: "payloads h (xs @ ys) = payloads h xs @ payloads h ys"
  by (simp add: payloads_def)

lemma fwd_suffix: "fwd h p (pre @ x # post) \<Longrightarrow> fwd h x (x # post)"
  by (induction pre arbitrary: p) auto

lemma bwd_suffix: "bwd h p (pre @ x # post) \<Longrightarrow> bwd h x (x # post)"
  by (induction pre arbitrary: p) auto

lemma chain_fwd: "chain h (pre @ x # post) \<Longrightarrow> fwd h x (x # post)"
  unfolding chain_def using fwd_suffix by blast

lemma chain_bwd:
  assumes "chain h (pre @ x # post)"
  shows "bwd h x (x # rev pre)"
proof -
  from assms have "bwd h (last (pre @ x # post)) (rev post @ x # rev pre)"
    by (simp add: chain_def)
  then show ?thesis by (rule bwd_suffix)
qed

lemma chain_same_shape: "same_shape h h' \<Longrightarrow> chain h' xs = chain h xs"
  by (simp add: chain_def fwd_same_shape bwd_same_shape)

lemma selsort_mset: "mset (selsort xs) = mset xs"
  by (simp add: selsort_def selsort_aux_mset)

lemma selsort_sorted: "sorted_wrt sort_le (selsort xs)"
  by (simp add: selsort_def selsort_aux_sorted)

lemma selsort_spec_sorted: "sorted_wrt spec_le (selsort xs)"
  using selsort_sorted[of xs] sort_le_spec_le sorted_wrt_mono_rel[of "selsort xs" sort_le spec_le]
  by blast

lemma selsort_sorted_id: "sorted_wrt sort_le xs \<Longrightarrow> selsort xs = xs"
  by (simp add: selsort_def selsort_aux_sorted_id)

lemma selsort_zoo:
  "selsort [Some ''dog'', Some ''cat'', Some ''duck'', Some ''goat'', None] =
     [None, Some ''cat'', Some ''dog'', Some ''duck'', Some ''goat'']"
  by code_simp

lemma sort_node_ok:
  assumes "chain h (pre @ x # post)"
  shows "\<exists>h'. LinkedListSort h x = Some (Inr (SUCCESS, h')) \<and> same_shape h h' \<and>
           (\<forall>a. a \<notin> set (x # post) \<longrightarrow> cells h' a = cells h a) \<and>
           payloads h' (x # post) = selsort (payloads h (x # post))"
proof -
  from assms have f: "fwd h x (x # post)" by (rule chain_fwd)
  then have x: "x \<noteq> NULL" by simp
  from assms have "distinct (x # post)" by (simp add: chain_def)
  with sort_outer_ok[OF f] obtain h' where
    o: "sort_outer h x = Some (Inr h')" "same_shape h h'"
       "\<forall>a. a \<notin> set (x # post) \<longrightarrow> cells h' a = cells h a"
       "payloads h' (x # post) = selsort (payloads h (x # post))"
    by blast
  from x o(1) have "LinkedListSort h x = Some (Inr (SUCCESS, h'))"
    by (simp add: LinkedListSort_def)
  with o show ?thesis by blast
qed

lemma zoo_chain: "chain zoo [1, 2, 3, 4, 5]"
  by (simp add: chain_def zoo_def)

section \<open>Sorting from the head\<close>

text \<open>
  Claim C1. Sorting from the head of a chain returns \<open>SUCCESS\<close> and leaves the payloads,
  read head to tail, in ascending order by length (a null payload counting as length 0)
  and lexicographically among equal lengths; they are the payloads the chain held before.
  A chain holding dog, cat, duck, goat, null ends up holding null, cat, dog, duck, goat.
\<close>

theorem sort_head_orders:
  assumes "chain h xs"
  shows "\<exists>h'. LinkedListSort h (hd xs) = Some (Inr (SUCCESS, h')) \<and>
           sorted_wrt spec_le (payloads h' xs) \<and>
           mset (payloads h' xs) = mset (payloads h xs) \<and>
           (payloads h xs = [Some ''dog'', Some ''cat'', Some ''duck'', Some ''goat'', None] \<longrightarrow>
            payloads h' xs = [None, Some ''cat'', Some ''dog'', Some ''duck'', Some ''goat''])"
proof -
  from assms obtain x post where xs: "xs = x # post"
    by (cases xs) (auto simp: chain_def)
  with assms have "chain h ([] @ x # post)" by simp
  from sort_node_ok[OF this] obtain h' where
    r: "LinkedListSort h x = Some (Inr (SUCCESS, h'))"
       "payloads h' (x # post) = selsort (payloads h (x # post))"
    by blast
  from r(2) have "sorted_wrt spec_le (payloads h' xs)"
    by (simp add: xs selsort_spec_sorted)
  moreover from r(2) have "mset (payloads h' xs) = mset (payloads h xs)"
    by (simp add: xs selsort_mset)
  moreover from r(2) have
    "payloads h xs = [Some ''dog'', Some ''cat'', Some ''duck'', Some ''goat'', None] \<longrightarrow>
     payloads h' xs = [None, Some ''cat'', Some ''dog'', Some ''duck'', Some ''goat'']"
    by (simp add: xs selsort_zoo)
  ultimately show ?thesis using r(1) xs by auto
qed

theorem sort_head_orders_witness:
  "chain zoo [1, 2, 3, 4, 5] \<and>
   payloads zoo [1, 2, 3, 4, 5] = [Some ''dog'', Some ''cat'', Some ''duck'', Some ''goat'', None] \<and>
   sort_view zoo 1 [1, 2, 3, 4, 5] =
     Some (Inr (SUCCESS, [None, Some ''cat'', Some ''dog'', Some ''duck'', Some ''goat'']))"
proof -
  have p: "payloads zoo [1, 2, 3, 4, 5] =
      [Some ''dog'', Some ''cat'', Some ''duck'', Some ''goat'', None]"
    by (simp add: payloads_def zoo_def)
  from sort_head_orders[OF zoo_chain] p obtain h' where
    "LinkedListSort zoo 1 = Some (Inr (SUCCESS, h'))"
    "payloads h' [1, 2, 3, 4, 5] = [None, Some ''cat'', Some ''dog'', Some ''duck'', Some ''goat'']"
    by auto
  then have "sort_view zoo 1 [1, 2, 3, 4, 5] =
     Some (Inr (SUCCESS, [None, Some ''cat'', Some ''dog'', Some ''duck'', Some ''goat'']))"
    by (simp add: sort_view_def)
  with zoo_chain p show ?thesis by simp
qed

lemma bac_chain: "chain bac [1, 2, 3]"
  by (simp add: chain_def bac_def)

lemma pair_chain: "chain (pair_heap p q) [1, 2]"
  by (simp add: chain_def pair_heap_def)

section \<open>What a sort changes\<close>

text \<open>
  Claim C7. Sorting from any node of a chain succeeds and leaves both links of every
  block as they were; no block is allocated or freed, the chain is the same sequence of
  nodes, and the payloads of the chain are the same multiset as before.
\<close>

theorem sort_keeps_links:
  assumes "chain h xs" and "x \<in> set xs"
  shows "\<exists>h'. LinkedListSort h x = Some (Inr (SUCCESS, h')) \<and>
           live h' = live h \<and> avail h' = avail h \<and>
           (\<forall>a. nextItem (cells h' a) = nextItem (cells h a) \<and>
                previousItem (cells h' a) = previousItem (cells h a)) \<and>
           chain h' xs \<and>
           mset (payloads h' xs) = mset (payloads h xs)"
proof -
  from assms(2) obtain pre post where xs: "xs = pre @ x # post"
    by (auto dest: split_list)
  from sort_node_ok[OF assms(1)[unfolded xs]] obtain h' where
    r: "LinkedListSort h x = Some (Inr (SUCCESS, h'))" "same_shape h h'"
       "\<forall>a. a \<notin> set (x # post) \<longrightarrow> cells h' a = cells h a"
       "payloads h' (x # post) = selsort (payloads h (x # post))"
    by blast
  from assms(1) have "set pre \<inter> set (x # post) = {}"
    by (auto simp: xs chain_def)
  with r(3) have "payloads h' pre = payloads h pre"
    by (intro payloads_cong) auto
  with r(4) have "mset (payloads h' xs) = mset (payloads h xs)"
    by (simp add: xs payloads_append selsort_mset)
  moreover from r(2) assms(1) have "chain h' xs"
    by (simp add: chain_same_shape)
  ultimately show ?thesis
    using r(1) r(2) by (auto simp: same_shape_def)
qed

theorem sort_keeps_links_witness:
  "chain bac [1, 2, 3] \<and> (2::nat) \<in> set [1, 2, 3] \<and>
   (\<exists>h'. LinkedListSort bac 2 = Some (Inr (SUCCESS, h')) \<and>
      live h' = {1, 2, 3} \<and>
      map (\<lambda>a. nextItem (cells h' a)) [1, 2, 3] = [2, 3, NULL] \<and>
      map (\<lambda>a. previousItem (cells h' a)) [1, 2, 3] = [NULL, 1, 2] \<and>
      mset (payloads h' [1, 2, 3]) = {#Some ''a'', Some ''b'', Some ''c''#})"
proof -
  have m: "(2::nat) \<in> set [1, 2, 3]" by simp
  from sort_keeps_links[OF bac_chain m] obtain h' where
    r: "LinkedListSort bac 2 = Some (Inr (SUCCESS, h'))" "live h' = live bac"
       "\<forall>a. nextItem (cells h' a) = nextItem (cells bac a) \<and>
            previousItem (cells h' a) = previousItem (cells bac a)"
       "mset (payloads h' [1, 2, 3]) = mset (payloads bac [1, 2, 3])"
    by blast
  from r(2) have "live h' = {1, 2, 3}" by (simp add: bac_def)
  moreover from r(3) have "map (\<lambda>a. nextItem (cells h' a)) [1, 2, 3] = [2, 3, NULL]"
    by (simp add: bac_def)
  moreover from r(3) have "map (\<lambda>a. previousItem (cells h' a)) [1, 2, 3] = [NULL, 1, 2]"
    by (simp add: bac_def)
  moreover from r(4) have "mset (payloads h' [1, 2, 3]) = {#Some ''a'', Some ''b'', Some ''c''#}"
    by (simp add: bac_def payloads_def)
  ultimately show ?thesis using bac_chain r(1) by simp
qed

text \<open>
  Claim C10. Sorting from a node \<open>x\<close> of a chain leaves every node before \<open>x\<close> with the
  payload it held; the payloads of \<open>x\<close> and the nodes after it are put in order among
  themselves.
\<close>

theorem sort_leaves_earlier_nodes:
  assumes "chain h (pre @ x # post)"
  shows "\<exists>h'. LinkedListSort h x = Some (Inr (SUCCESS, h')) \<and>
           (\<forall>a \<in> set pre. cells h' a = cells h a) \<and>
           payloads h' pre = payloads h pre \<and>
           sorted_wrt spec_le (payloads h' (x # post)) \<and>
           mset (payloads h' (x # post)) = mset (payloads h (x # post))"
proof -
  from sort_node_ok[OF assms] obtain h' where
    r: "LinkedListSort h x = Some (Inr (SUCCESS, h'))"
       "\<forall>a. a \<notin> set (x # post) \<longrightarrow> cells h' a = cells h a"
       "payloads h' (x # post) = selsort (payloads h (x # post))"
    by blast
  from assms have "set pre \<inter> set (x # post) = {}"
    by (auto simp: chain_def)
  with r(2) have pre: "\<forall>a \<in> set pre. cells h' a = cells h a" by auto
  then have "payloads h' pre = payloads h pre" by (rule payloads_cong)
  with pre r show ?thesis
    by (simp add: selsort_spec_sorted selsort_mset)
qed

theorem sort_leaves_earlier_nodes_witness:
  "chain bac ([1] @ 2 # [3]) \<and>
   (\<exists>h'. LinkedListSort bac 2 = Some (Inr (SUCCESS, h')) \<and>
      payloads h' [1] = [Some ''b''] \<and>
      mset (payloads h' [2, 3]) = {#Some ''a'', Some ''c''#}) \<and>
   sort_view bac 2 [1, 2, 3] = Some (Inr (SUCCESS, [Some ''b'', Some ''a'', Some ''c''])) \<and>
   \<not> sorted_wrt spec_le [Some ''b'', Some ''a'', Some ''c'']"
proof -
  have c: "chain bac ([1] @ 2 # [3])" using bac_chain by simp
  from sort_leaves_earlier_nodes[OF c] obtain h' where
    r: "LinkedListSort bac 2 = Some (Inr (SUCCESS, h'))"
       "payloads h' [1] = payloads bac [1]"
       "mset (payloads h' (2 # [3])) = mset (payloads bac (2 # [3]))"
    by blast
  from r(2) have "payloads h' [1] = [Some ''b'']"
    by (simp add: payloads_def bac_def)
  moreover from r(3) have "mset (payloads h' [2, 3]) = {#Some ''a'', Some ''c''#}"
    by (simp add: payloads_def bac_def)
  moreover have "sort_view bac 2 [1, 2, 3] =
      Some (Inr (SUCCESS, [Some ''b'', Some ''a'', Some ''c'']))"
    by code_simp
  moreover have "\<not> sorted_wrt spec_le [Some ''b'', Some ''a'', Some ''c'']"
    by (simp add: spec_le_def plen_def ptext_def less_eq_char_def)
  ultimately show ?thesis using c r(1) by blast
qed

section \<open>Sorting a sorted chain\<close>

text \<open>
  Claim C8, for the order that takes a null payload as a string of length 0: the chain
  holding the empty string and then a null payload is in that order, and sorting it from
  the head exchanges the two payloads.
\<close>

theorem sorted_chain_changed:
  "chain (pair_heap (Some []) None) [1, 2] \<and>
   payloads (pair_heap (Some []) None) [1, 2] = [Some [], None] \<and>
   sorted_wrt spec_le [Some [], None] \<and>
   sort_view (pair_heap (Some []) None) 1 [1, 2] = Some (Inr (SUCCESS, [None, Some []]))"
proof -
  have "sort_view (pair_heap (Some []) None) 1 [1, 2] = Some (Inr (SUCCESS, [None, Some []]))"
    by code_simp
  moreover have "sorted_wrt spec_le [Some [], None]"
    by (simp add: spec_le_def plen_def ptext_def)
  moreover have "payloads (pair_heap (Some []) None) [1, 2] = [Some [], None]"
    by (simp add: payloads_def pair_heap_def)
  ultimately show ?thesis using pair_chain by simp
qed

text \<open>
  Claim C8, amended. When the payloads from a node onward are in the order the sort itself
  decides (null payloads first, before the empty string too, then by length, then
  lexicographically), sorting from that node succeeds and leaves the payload sequence of
  the whole chain as it was.
\<close>

theorem sort_sorted_unchanged:
  assumes "chain h (pre @ x # post)"
    and "sorted_wrt sort_le (payloads h (x # post))"
  shows "\<exists>h'. LinkedListSort h x = Some (Inr (SUCCESS, h')) \<and>
           payloads h' (pre @ x # post) = payloads h (pre @ x # post)"
proof -
  from sort_node_ok[OF assms(1)] obtain h' where
    r: "LinkedListSort h x = Some (Inr (SUCCESS, h'))"
       "\<forall>a. a \<notin> set (x # post) \<longrightarrow> cells h' a = cells h a"
       "payloads h' (x # post) = selsort (payloads h (x # post))"
    by blast
  from assms(1) have "set pre \<inter> set (x # post) = {}"
    by (auto simp: chain_def)
  with r(2) have "payloads h' pre = payloads h pre"
    by (intro payloads_cong) auto
  moreover from r(3) assms(2) have "payloads h' (x # post) = payloads h (x # post)"
    by (simp add: selsort_sorted_id)
  ultimately show ?thesis using r(1) by (simp add: payloads_append)
qed

theorem sort_sorted_unchanged_witness:
  "chain zoo_sorted ([1] @ 2 # [3, 4, 5]) \<and>
   sorted_wrt sort_le (payloads zoo_sorted (2 # [3, 4, 5])) \<and>
   sort_view zoo_sorted 2 [1, 2, 3, 4, 5] =
     Some (Inr (SUCCESS, [None, Some ''cat'', Some ''dog'', Some ''duck'', Some ''goat'']))"
proof -
  have c: "chain zoo_sorted ([1] @ 2 # [3, 4, 5])"
    by (simp add: chain_def zoo_sorted_def)
  have s: "sorted_wrt sort_le (payloads zoo_sorted (2 # [3, 4, 5]))"
    by (simp add: payloads_def zoo_sorted_def sort_le_def less_eq_char_def less_char_def)
  from sort_sorted_unchanged[OF c s] obtain h' where
    "LinkedListSort zoo_sorted 2 = Some (Inr (SUCCESS, h'))"
    "payloads h' ([1] @ 2 # [3, 4, 5]) = payloads zoo_sorted ([1] @ 2 # [3, 4, 5])"
    by blast
  then have "sort_view zoo_sorted 2 [1, 2, 3, 4, 5] =
     Some (Inr (SUCCESS, [None, Some ''cat'', Some ''dog'', Some ''duck'', Some ''goat'']))"
    by (simp add: sort_view_def) (simp add: payloads_def zoo_sorted_def)
  with c s show ?thesis by blast
qed


section \<open>Walking to the head and printing\<close>

lemma get_first_bwd:
  "bwd h p ys \<Longrightarrow> ys \<noteq> [] \<Longrightarrow> LinkedListGetFirst h p = Some (Inr (last ys))"
proof (induction ys arbitrary: p)
  case Nil
  then show ?case by simp
next
  case (Cons a as)
  then have a: "p = a" "a \<noteq> NULL" "a \<in> live h" and b: "bwd h (previousItem (cells h a)) as"
    by auto
  show ?case
  proof (cases as)
    case Nil
    with b have "previousItem (cells h a) = NULL" by simp
    with a Nil show ?thesis
      by (subst LinkedListGetFirst.simps) (simp add: deref_live)
  next
    case (Cons c cs)
    with b have "previousItem (cells h a) \<noteq> NULL" by auto
    moreover from Cons.IH[OF b] Cons
    have "LinkedListGetFirst h (previousItem (cells h a)) = Some (Inr (last as))" by simp
    ultimately show ?thesis using a Cons
      by (subst LinkedListGetFirst.simps) (simp add: deref_live)
  qed
qed

lemma get_first_chain:
  assumes "chain h xs" and "x \<in> set xs"
  shows "LinkedListGetFirst h x = Some (Inr (hd xs))"
proof -
  from assms(2) obtain pre post where xs: "xs = pre @ x # post"
    by (auto dest: split_list)
  from assms(1) have "bwd h x (x # rev pre)"
    unfolding xs by (rule chain_bwd)
  from get_first_bwd[OF this] have "LinkedListGetFirst h x = Some (Inr (last (x # rev pre)))"
    by simp
  also have "last (x # rev pre) = hd xs"
    by (cases pre) (simp_all add: xs last_rev)
  finally show ?thesis .
qed

lemma fwd_printf: "fwd (printf h s) p xs = fwd h p xs"
  by (induction xs arbitrary: p) (auto simp: printf_def)

lemma payloads_printf: "payloads (printf h s) xs = payloads h xs"
  by (simp add: payloads_def printf_def)

lemma printf_printf: "printf (printf h s) t = printf h (s @ t)"
  by (simp add: printf_def)

lemma print_loop_fwd:
  "fwd h p xs \<Longrightarrow>
   print_loop h p = Some (Inr (printf h (concat (map item_text (payloads h xs)))))"
proof (induction xs arbitrary: h p)
  case Nil
  then show ?case
    by (subst print_loop.simps) (simp add: printf_def payloads_Nil)
next
  case (Cons a xs)
  then have a: "p = a" "a \<noteq> NULL" "a \<in> live h" and n: "fwd h (nextItem (cells h a)) xs"
    by auto
  let ?t = "item_text (data (cells h a))"
  from n have "fwd (printf h ?t) (nextItem (cells h a)) xs" by (simp add: fwd_printf)
  from Cons.IH[OF this]
  have "print_loop (printf h ?t) (nextItem (cells h a)) =
          Some (Inr (printf h (?t @ concat (map item_text (payloads h xs)))))"
    by (simp add: payloads_printf printf_printf)
  with a show ?case
    by (subst print_loop.simps)
       (simp add: deref_live payloads_Cons item_text_def split: option.splits)
qed

lemma zoo_sorted_chain: "chain zoo_sorted [1, 2, 3, 4, 5]"
  by (simp add: chain_def zoo_sorted_def)

text \<open>
  Claim C9, amended. Printing from any node of a chain returns \<open>SUCCESS\<close> and appends one
  line to the output: an opening brace, then for each payload from head to tail a dash,
  the value and a dash (\<open>-(null)-\<close> for a null payload), then a closing brace and a
  newline. Neighbouring values are therefore separated by two dashes; for the payloads
  null, cat, dog, duck, goat the line is \<open>{-(null)--cat--dog--duck--goat-}\<close>.
\<close>

theorem print_renders:
  assumes "chain h xs" and "x \<in> set xs"
  shows "LinkedListPrint h x = Some (Inr (SUCCESS, printf h (chain_text (payloads h xs)))) \<and>
         (payloads h xs = [None, Some ''cat'', Some ''dog'', Some ''duck'', Some ''goat''] \<longrightarrow>
          chain_text (payloads h xs) = ''{-(null)--cat--dog--duck--goat-}'' @ [CHR 0x0A])"
proof -
  from assms have x: "x \<noteq> NULL"
    by (auto simp: chain_def dest: fwd_live)
  from assms(1) have "fwd h (hd xs) xs" by (simp add: chain_def)
  then have "fwd (printf h ''{'') (hd xs) xs" by (simp add: fwd_printf)
  from print_loop_fwd[OF this]
  have "print_loop (printf h ''{'') (hd xs) =
          Some (Inr (printf h (''{'' @ concat (map item_text (payloads h xs)))))"
    by (simp add: payloads_printf printf_printf)
  with x get_first_chain[OF assms] have
    "LinkedListPrint h x = Some (Inr (SUCCESS, printf h (chain_text (payloads h xs))))"
    by (simp add: LinkedListPrint_def printf_printf chain_text_def)
  then show ?thesis by (auto simp: chain_text_def item_text_def)
qed

theorem print_renders_witness:
  "chain zoo_sorted [1, 2, 3, 4, 5] \<and> (3::nat) \<in> set [1, 2, 3, 4, 5] \<and>
   payloads zoo_sorted [1, 2, 3, 4, 5] =
     [None, Some ''cat'', Some ''dog'', Some ''duck'', Some ''goat''] \<and>
   print_view zoo_sorted 3 =
     Some (Inr (SUCCESS, ''{-(null)--cat--dog--duck--goat-}'' @ [CHR 0x0A]))"
proof -
  have m: "(3::nat) \<in> set [1, 2, 3, 4, 5]" by simp
  have p: "payloads zoo_sorted [1, 2, 3, 4, 5] =
      [None, Some ''cat'', Some ''dog'', Some ''duck'', Some ''goat'']"
    by (simp add: payloads_def zoo_sorted_def)
  from print_renders[OF zoo_sorted_chain m] p have
    "LinkedListPrint zoo_sorted 3 =
       Some (Inr (SUCCESS, printf zoo_sorted (''{-(null)--cat--dog--duck--goat-}'' @ [CHR 0x0A])))"
    by simp
  then have "print_view zoo_sorted 3 =
     Some (Inr (SUCCESS, ''{-(null)--cat--dog--duck--goat-}'' @ [CHR 0x0A]))"
    by (simp add: print_view_def printf_def zoo_sorted_def)
  with zoo_sorted_chain m p show ?thesis by blast
qed

text \<open>
  Claim C9, for the pattern with one dash between values: the chain holding a and b is
  printed as \<open>{-a--b-}\<close>, which is not the line \<open>{-a-b-}\<close> of the pattern.
\<close>

theorem print_two_dashes:
  "chain (pair_heap (Some ''a'') (Some ''b'')) [1, 2] \<and>
   print_view (pair_heap (Some ''a'') (Some ''b'')) 1 =
     Some (Inr (SUCCESS, ''{-a--b-}'' @ [CHR 0x0A])) \<and>
   spec_text [''a'', ''b''] = ''{-a-b-}'' @ [CHR 0x0A] \<and>
   print_view (pair_heap (Some ''a'') (Some ''b'')) 1 \<noteq>
     Some (Inr (SUCCESS, spec_text [''a'', ''b'']))"
proof -
  have v: "print_view (pair_heap (Some ''a'') (Some ''b'')) 1 =
      Some (Inr (SUCCESS, ''{-a--b-}'' @ [CHR 0x0A]))"
    by code_simp
  have t: "spec_text [''a'', ''b''] = ''{-a-b-}'' @ [CHR 0x0A]"
    by (simp add: spec_text_def)
  from v t pair_chain show ?thesis by simp
qed


section \<open>Inserting and removing\<close>

lemma chain_node:
  assumes "chain h xs" and "x \<in> set xs"
  shows "x \<noteq> NULL \<and> x \<in> live h"
  using assms by (auto simp: chain_def dest: fwd_live)

lemma chain_next:
  assumes "chain h xs" and "x \<in> set xs"
  shows "nextItem (cells h x) = NULL \<or>
         (nextItem (cells h x) \<in> live h \<and> nextItem (cells h x) \<in> set xs \<and>
          nextItem (cells h x) \<noteq> x)"
proof -
  from assms(2) obtain pre post where xs: "xs = pre @ x # post"
    by (auto dest: split_list)
  from assms(1) have f: "fwd h x (x # post)" unfolding xs by (rule chain_fwd)
  from assms(1) have d: "x \<notin> set post" by (simp add: xs chain_def)
  show ?thesis
  proof (cases post)
    case Nil
    with f show ?thesis by simp
  next
    case (Cons c cs)
    with f d show ?thesis by (auto simp: xs)
  qed
qed

lemma chain_prev:
  assumes "chain h xs" and "x \<in> set xs"
  shows "previousItem (cells h x) = NULL \<or>
         (previousItem (cells h x) \<in> live h \<and> previousItem (cells h x) \<in> set xs \<and>
          previousItem (cells h x) \<noteq> x)"
proof -
  from assms(2) obtain pre post where xs: "xs = pre @ x # post"
    by (auto dest: split_list)
  from assms(1) have b: "bwd h x (x # rev pre)" unfolding xs by (rule chain_bwd)
  from assms(1) have d: "x \<notin> set pre" by (simp add: xs chain_def)
  show ?thesis
  proof (cases "rev pre")
    case Nil
    with b show ?thesis by simp
  next
    case (Cons c cs)
    then have "c \<in> set pre" by (metis list.set_intros(1) set_rev)
    with b d Cons show ?thesis by (auto simp: xs)
  qed
qed

lemma bac_avail: "set (avail bac) \<inter> live bac = {}"
  by (simp add: bac_def)

lemma create_after_bac:
  "\<exists>h'. LinkedListCreateAfter bac 2 (Some ''x'') = Inr (4, h')"
  by (simp add: LinkedListCreateAfter_def LinkedListNew_def malloc_def put_def deref_def bac_def)

lemma create_after_bac_tail:
  "\<exists>h'. LinkedListCreateAfter bac 3 (Some ''x'') = Inr (4, h')"
  by (simp add: LinkedListCreateAfter_def LinkedListNew_def malloc_def put_def deref_def bac_def)

text \<open>
  Claim C5. When \<open>LinkedListCreateAfter\<close> on a node \<open>A\<close> of a chain returns a node
  \<open>B\<close>, then \<open>B\<close> is a new block holding the payload, \<open>A.next\<close> is \<open>B\<close> and
  \<open>B.prev\<close> is \<open>A\<close>; \<open>B.next\<close> is what \<open>A.next\<close> was (null when \<open>A\<close> was the
  tail), and the node that followed \<open>A\<close>, if any, has \<open>B\<close> as its \<open>prev\<close>.
\<close>

theorem create_after_links:
  assumes "chain h xs" and "A \<in> set xs"
    and "set (avail h) \<inter> live h = {}"
    and "LinkedListCreateAfter h A p = Inr (B, h')"
  shows "B \<noteq> NULL \<and> B \<notin> set xs \<and>
         nextItem (cells h' A) = B \<and> previousItem (cells h' B) = A \<and>
         data (cells h' B) = p \<and>
         nextItem (cells h' B) = nextItem (cells h A) \<and>
         (nextItem (cells h A) \<noteq> NULL \<longrightarrow>
            previousItem (cells h' (nextItem (cells h A))) = B)"
proof -
  from chain_node[OF assms(1,2)] have A: "A \<noteq> NULL" "A \<in> live h" by simp_all
  from assms(4) obtain rest where av: "avail h = B # rest" and B: "B \<noteq> NULL"
    by (auto simp: LinkedListCreateAfter_def LinkedListNew_def malloc_def put_def
             split: list.splits if_splits sum.splits)
  from av assms(3) have fresh: "B \<notin> live h" by auto
  with assms(1) have notin: "B \<notin> set xs"
    by (auto dest: chain_node)
  from fresh A have ne: "B \<noteq> A" by auto
  from chain_next[OF assms(1,2)] fresh
  have C: "nextItem (cells h A) = NULL \<or>
           (nextItem (cells h A) \<in> live h \<and> nextItem (cells h A) \<noteq> B \<and>
            nextItem (cells h A) \<noteq> A)"
    by auto
  from assms(4) av B A ne C have
    "nextItem (cells h' A) = B \<and> previousItem (cells h' B) = A \<and>
     data (cells h' B) = p \<and>
     nextItem (cells h' B) = nextItem (cells h A) \<and>
     (nextItem (cells h A) \<noteq> NULL \<longrightarrow>
        previousItem (cells h' (nextItem (cells h A))) = B)"
    by (auto simp: LinkedListCreateAfter_def LinkedListNew_def malloc_def put_def deref_def
             split: if_splits)
  with B notin show ?thesis by simp
qed

theorem create_after_links_witness:
  "chain bac [1, 2, 3] \<and> (2::nat) \<in> set [1, 2, 3] \<and> set (avail bac) \<inter> live bac = {} \<and>
   (\<exists>h'. LinkedListCreateAfter bac 2 (Some ''x'') = Inr (4, h') \<and>
      nextItem (cells h' 2) = 4 \<and> previousItem (cells h' 4) = 2 \<and>
      data (cells h' 4) = Some ''x'' \<and>
      nextItem (cells h' 4) = 3 \<and> previousItem (cells h' 3) = 4) \<and>
   (\<exists>h'. LinkedListCreateAfter bac 3 (Some ''x'') = Inr (4, h') \<and>
      nextItem (cells h' 3) = 4 \<and> previousItem (cells h' 4) = 3 \<and>
      nextItem (cells h' 4) = NULL)"
proof -
  have m2: "(2::nat) \<in> set [1, 2, 3]" and m3: "(3::nat) \<in> set [1, 2, 3]" by simp_all
  have n2: "nextItem (cells bac 2) = 3" and n3: "nextItem (cells bac 3) = NULL"
    by (simp_all add: bac_def)
  from create_after_bac obtain h2 where
    e2: "LinkedListCreateAfter bac 2 (Some ''x'') = Inr (4, h2)" by blast
  from create_after_bac_tail obtain h3 where
    e3: "LinkedListCreateAfter bac 3 (Some ''x'') = Inr (4, h3)" by blast
  from create_after_links[OF bac_chain m2 bac_avail e2] n2 e2
  have a: "\<exists>h'. LinkedListCreateAfter bac 2 (Some ''x'') = Inr (4, h') \<and>
      nextItem (cells h' 2) = 4 \<and> previousItem (cells h' 4) = 2 \<and>
      data (cells h' 4) = Some ''x'' \<and>
      nextItem (cells h' 4) = 3 \<and> previousItem (cells h' 3) = 4"
    by simp
  from create_after_links[OF bac_chain m3 bac_avail e3] n3 e3
  have b: "\<exists>h'. LinkedListCreateAfter bac 3 (Some ''x'') = Inr (4, h') \<and>
      nextItem (cells h' 3) = 4 \<and> previousItem (cells h' 4) = 3 \<and>
      nextItem (cells h' 4) = NULL"
    by simp
  from bac_chain m2 bac_avail a b show ?thesis by blast
qed

text \<open>
  Claim C6. Removing a node of a chain returns the payload the node held and frees the
  node. Its predecessor, if any, gets the node's successor as \<open>next\<close> and its successor,
  if any, gets the node's predecessor as \<open>prev\<close>: an interior node's neighbours are
  linked to each other, and at the head or the tail the surviving neighbour's link toward
  the removed node becomes null.
\<close>

theorem remove_links:
  assumes "chain h xs" and "node \<in> set xs"
  shows "\<exists>h'. LinkedListRemove h node = Inr (data (cells h node), h') \<and>
           node \<notin> live h' \<and>
           (previousItem (cells h node) \<noteq> NULL \<longrightarrow>
              nextItem (cells h' (previousItem (cells h node))) = nextItem (cells h node)) \<and>
           (nextItem (cells h node) \<noteq> NULL \<longrightarrow>
              previousItem (cells h' (nextItem (cells h node))) = previousItem (cells h node))"
proof -
  from chain_node[OF assms] have n: "node \<noteq> NULL" "node \<in> live h" by simp_all
  from chain_next[OF assms] chain_prev[OF assms] n show ?thesis
    by (auto simp: LinkedListRemove_def deref_def put_def free_def Let_def)
qed

theorem remove_links_witness:
  "chain bac [1, 2, 3] \<and>
   (\<exists>h'. LinkedListRemove bac 2 = Inr (Some ''a'', h') \<and> 2 \<notin> live h' \<and>
      nextItem (cells h' 1) = 3 \<and> previousItem (cells h' 3) = 1) \<and>
   (\<exists>h'. LinkedListRemove bac 1 = Inr (Some ''b'', h') \<and> previousItem (cells h' 2) = NULL) \<and>
   (\<exists>h'. LinkedListRemove bac 3 = Inr (Some ''c'', h') \<and> nextItem (cells h' 2) = NULL)"
proof -
  have m: "(1::nat) \<in> set [1, 2, 3]" "(2::nat) \<in> set [1, 2, 3]" "(3::nat) \<in> set [1, 2, 3]"
    by simp_all
  have c: "cells bac 1 = \<lparr>previousItem = NULL, nextItem = 2, data = Some ''b''\<rparr>"
          "cells bac 2 = \<lparr>previousItem = 1, nextItem = 3, data = Some ''a''\<rparr>"
          "cells bac 3 = \<lparr>previousItem = 2, nextItem = NULL, data = Some ''c''\<rparr>"
    by (simp_all add: bac_def)
  from remove_links[OF bac_chain m(2)] c
  have a: "\<exists>h'. LinkedListRemove bac 2 = Inr (Some ''a'', h') \<and> 2 \<notin> live h' \<and>
      nextItem (cells h' 1) = 3 \<and> previousItem (cells h' 3) = 1"
    by simp
  from remove_links[OF bac_chain m(1)] c
  have b: "\<exists>h'. LinkedListRemove bac 1 = Inr (Some ''b'', h') \<and>
      previousItem (cells h' 2) = NULL"
    by auto
  from remove_links[OF bac_chain m(3)] c
  have d: "\<exists>h'. LinkedListRemove bac 3 = Inr (Some ''c'', h') \<and> nextItem (cells h' 2) = NULL"
    by auto
  from bac_chain a b d show ?thesis by blast
qed


section \<open>Null arguments and allocation\<close>

text \<open>
  Claim C3. \<open>LinkedListSwapData\<close> returns \<open>STANDARD_ERROR\<close> exactly when both nodes
  are null. With exactly one null node it goes on to the exchange, which dereferences the
  null pointer. With two nodes it returns \<open>SUCCESS\<close> and the two payloads are exchanged,
  whatever they are, null included; links and all other blocks are as before.
\<close>

theorem swap_contract:
  "((\<exists>h'. LinkedListSwapData h a b = Inr (STANDARD_ERROR, h')) \<longleftrightarrow> a = NULL \<and> b = NULL) \<and>
   (a = NULL \<and> b \<noteq> NULL \<longrightarrow> LinkedListSwapData h a b = Inl NullDeref) \<and>
   (a \<noteq> NULL \<and> a \<in> live h \<and> b = NULL \<longrightarrow> LinkedListSwapData h a b = Inl NullDeref) \<and>
   (a \<noteq> NULL \<and> a \<in> live h \<and> b \<noteq> NULL \<and> b \<in> live h \<longrightarrow>
      (\<exists>h'. LinkedListSwapData h a b = Inr (SUCCESS, h') \<and> same_shape h h' \<and>
         data (cells h' a) = data (cells h b) \<and> data (cells h' b) = data (cells h a) \<and>
         (\<forall>x. x \<noteq> a \<and> x \<noteq> b \<longrightarrow> cells h' x = cells h x)))"
proof -
  have 1: "(\<exists>h'. LinkedListSwapData h a b = Inr (STANDARD_ERROR, h')) \<longleftrightarrow> a = NULL \<and> b = NULL"
    by (auto simp: LinkedListSwapData_def deref_def put_def Let_def split: if_splits)
  have 2: "a = NULL \<and> b \<noteq> NULL \<longrightarrow> LinkedListSwapData h a b = Inl NullDeref"
    by (simp add: LinkedListSwapData_def deref_def)
  have 3: "a \<noteq> NULL \<and> a \<in> live h \<and> b = NULL \<longrightarrow> LinkedListSwapData h a b = Inl NullDeref"
    by (simp add: LinkedListSwapData_def deref_def)
  have 4: "a \<noteq> NULL \<and> a \<in> live h \<and> b \<noteq> NULL \<and> b \<in> live h \<longrightarrow>
      (\<exists>h'. LinkedListSwapData h a b = Inr (SUCCESS, h') \<and> same_shape h h' \<and>
         data (cells h' a) = data (cells h b) \<and> data (cells h' b) = data (cells h a) \<and>
         (\<forall>x. x \<noteq> a \<and> x \<noteq> b \<longrightarrow> cells h' x = cells h x))"
    using swap_ok[of a h b] by blast
  from 1 2 3 4 show ?thesis by blast
qed

theorem swap_contract_witness:
  "(\<exists>h'. LinkedListSwapData (pair_heap (Some ''a'') None) NULL NULL = Inr (STANDARD_ERROR, h')) \<and>
   LinkedListSwapData (pair_heap (Some ''a'') None) NULL 2 = Inl NullDeref \<and>
   LinkedListSwapData (pair_heap (Some ''a'') None) 1 NULL = Inl NullDeref \<and>
   (\<exists>h'. LinkedListSwapData (pair_heap (Some ''a'') None) 1 2 = Inr (SUCCESS, h') \<and>
      data (cells h' 1) = None \<and> data (cells h' 2) = Some ''a'')"
proof -
  let ?h = "pair_heap (Some ''a'') None"
  have l: "(1::nat) \<in> live ?h" "(2::nat) \<in> live ?h" by (simp_all add: pair_heap_def)
  have d: "data (cells ?h 1) = Some ''a''" "data (cells ?h 2) = None"
    by (simp_all add: pair_heap_def)
  from swap_contract[of ?h NULL NULL]
  have a: "\<exists>h'. LinkedListSwapData ?h NULL NULL = Inr (STANDARD_ERROR, h')" by simp
  from swap_contract[of ?h NULL 2]
  have b: "LinkedListSwapData ?h NULL 2 = Inl NullDeref" by simp
  from swap_contract[of ?h 1 NULL] l
  have c: "LinkedListSwapData ?h 1 NULL = Inl NullDeref" by simp
  from swap_contract[of ?h 1 2] l d
  have e: "\<exists>h'. LinkedListSwapData ?h 1 2 = Inr (SUCCESS, h') \<and>
      data (cells h' 1) = None \<and> data (cells h' 2) = Some ''a''"
    by auto
  from a b c e show ?thesis by blast
qed

text \<open>
  Claim C2 fails on the code. \<open>LinkedListRemove\<close>, \<open>LinkedListGetFirst\<close>, \<open>LinkedListSize\<close>
  and \<open>LinkedListCreateAfter\<close> dereference a null node before any test of it, in every
  memory; \<open>LinkedListSort\<close> and \<open>LinkedListPrint\<close> test first and return
  \<open>STANDARD_ERROR\<close> with the memory untouched.
\<close>

theorem null_node_faults:
  "LinkedListRemove h NULL = Inl NullDeref \<and>
   LinkedListGetFirst h NULL = Some (Inl NullDeref) \<and>
   LinkedListSize h NULL = Some (Inl NullDeref) \<and>
   LinkedListCreateAfter h NULL d = Inl NullDeref \<and>
   LinkedListSort h NULL = Some (Inr (STANDARD_ERROR, h)) \<and>
   LinkedListPrint h NULL = Some (Inr (STANDARD_ERROR, h))"
proof -
  have g: "LinkedListGetFirst h NULL = Some (Inl NullDeref)"
    by (subst LinkedListGetFirst.simps) (simp add: deref_def)
  have c: "LinkedListCreateAfter h NULL d = Inl NullDeref"
    by (auto simp: LinkedListCreateAfter_def LinkedListNew_def malloc_def put_def deref_def
             split: list.splits sum.splits if_splits)
  from g c show ?thesis
    by (simp add: LinkedListRemove_def LinkedListSize_def LinkedListSort_def
                  LinkedListPrint_def deref_def)
qed

text \<open>The memory \<open>recycled\<close> is what removing the second node of a two-node chain leaves.\<close>

lemma recycled_from_remove:
  "LinkedListRemove
     (pair_heap (Some ''a'') (Some ''b'')\<lparr>avail := [3]\<rparr>) 2 = Inr (Some ''b'', recycled)"
  by (auto simp: LinkedListRemove_def deref_def put_def free_def pair_heap_def recycled_def
                fun_eq_iff)

text \<open>
  Claim C4 fails on the code. When \<open>malloc\<close> returns the null pointer,
  \<open>LinkedListNew\<close> stores the payload through it before the null test. When \<open>malloc\<close>
  returns a block that was a node before, the new node keeps the links that block had:
  here its \<open>previousItem\<close> still points to node 1.
\<close>

theorem new_node_faults_or_keeps_links:
  "LinkedListNew exhausted (Some ''dog'') = Inl NullDeref \<and>
   map_sum id (\<lambda>r. (fst r, cells (snd r) (fst r))) (LinkedListNew recycled (Some ''c'')) =
     Inr (2, \<lparr>previousItem = 1, nextItem = NULL, data = Some ''c''\<rparr>)"
  by (simp add: LinkedListNew_def malloc_def put_def exhausted_def recycled_def)

end
